theory Spec2Isabelle
  imports Main "HOL-Library.Sublist" "HOL-Library.Multiset"
begin

section \<open>Characters and strings\<close>

text \<open>
  Python strings are sequences of code points. The model uses \<^typ>\<open>string\<close>, whose
  characters are the code points 0 to 255 (Latin-1); the character classes and the case
  mapping below are those of Python on that range.
\<close>

definition is_alnum :: "char \<Rightarrow> bool" where
  \<comment> \<open>the character class \<open>[a-zA-Z0-9]\<close> of \<open>tokenize\<close>\<close>
  "is_alnum c = (let n = (of_char c :: nat) in
     (48 \<le> n \<and> n \<le> 57) \<or> (65 \<le> n \<and> n \<le> 90) \<or> (97 \<le> n \<and> n \<le> 122))"

definition is_space :: "char \<Rightarrow> bool" where
  \<comment> \<open>the class \<open>\s\<close> of \<open>re\<close> on \<open>str\<close>, which is also what \<open>str.strip()\<close> removes\<close>
  "is_space c = (let n = (of_char c :: nat) in
     (9 \<le> n \<and> n \<le> 13) \<or> (28 \<le> n \<and> n \<le> 32) \<or> n = 133 \<or> n = 160)"

definition is_terminator :: "char \<Rightarrow> bool" where
  \<comment> \<open>the character class \<open>[.!?]\<close> of \<open>extract_snippets\<close>\<close>
  "is_terminator c = (c = CHR ''.'' \<or> c = CHR ''!'' \<or> c = CHR ''?'')"

definition lower_char :: "char \<Rightarrow> char" where
  \<comment> \<open>\<open>str.lower()\<close> on one character of the range 0 to 255; no property below relies on
      what it does to a character that is not an ASCII letter\<close>
  "lower_char c = (let n = (of_char c :: nat) in
     if (65 \<le> n \<and> n \<le> 90) \<or> (192 \<le> n \<and> n \<le> 222 \<and> n \<noteq> 215)
     then char_of (n + 32) else c)"

definition lower :: "string \<Rightarrow> string" where
  "lower s = map lower_char s"

text \<open>
  Changing the case of the ASCII letters of a text, and of nothing else: the two mappings
  with which the case-insensitivity of the tokenizer is stated.
\<close>

definition ascii_lower_char :: "char \<Rightarrow> char" where
  "ascii_lower_char c = (let n = (of_char c :: nat) in
     if 65 \<le> n \<and> n \<le> 90 then char_of (n + 32) else c)"

definition ascii_upper_char :: "char \<Rightarrow> char" where
  "ascii_upper_char c = (let n = (of_char c :: nat) in
     if 97 \<le> n \<and> n \<le> 122 then char_of (n - 32) else c)"

definition strip :: "string \<Rightarrow> string" where
  \<comment> \<open>\<open>str.strip()\<close>\<close>
  "strip s = rev (dropWhile is_space (rev (dropWhile is_space s)))"

fun join :: "string \<Rightarrow> string list \<Rightarrow> string" where
  \<comment> \<open>\<open>sep.join(xs)\<close>\<close>
  "join sep [] = []"
| "join sep [x] = x"
| "join sep (x # y # ys) = x @ sep @ join sep (y # ys)"

fun contains :: "string \<Rightarrow> string \<Rightarrow> bool" where
  \<comment> \<open>\<open>t in s\<close> on strings: \<open>contains s t\<close>\<close>
  "contains [] t = (t = [])"
| "contains (c # cs) t = (prefix t (c # cs) \<or> contains cs t)"


section \<open>Tokenization\<close>

text \<open>
  \<open>re.findall(r"[a-zA-Z0-9]+", t)\<close>: scanning from the left, a match starts at the first
  character of the class and, the quantifier being greedy, extends over the whole run;
  the scan resumes behind the match.
\<close>

function findall_alnum :: "string \<Rightarrow> string list" where
  "findall_alnum [] = []"
| "findall_alnum (c # cs) =
     (if is_alnum c
      then takeWhile is_alnum (c # cs) # findall_alnum (dropWhile is_alnum cs)
      else findall_alnum cs)"
  by pat_completeness auto
termination
  by (relation "measure length") (auto simp: length_dropWhile_le less_Suc_eq_le)

definition tokenize :: "string \<Rightarrow> string list" where
  "tokenize t = map lower (findall_alnum t)"

text \<open>
  The tokenizer in the words of the specification: every character that is not an ASCII
  letter or digit is a separator, the text is cut at each separator, and the non-empty
  pieces (the maximal runs) are lowercased.
\<close>

fun pieces :: "(char \<Rightarrow> bool) \<Rightarrow> string \<Rightarrow> string list" where
  "pieces sep [] = [[]]"
| "pieces sep (c # cs) =
     (if sep c then [] # pieces sep cs
      else (case pieces sep cs of [] \<Rightarrow> [[c]] | p # ps \<Rightarrow> (c # p) # ps))"

definition tokenize_spec :: "string \<Rightarrow> string list" where
  "tokenize_spec t = map lower (filter (\<lambda>w. w \<noteq> []) (pieces (\<lambda>c. \<not> is_alnum c) t))"


section \<open>Data model\<close>

text \<open>
  A stored resource, as the document store hands it to \<open>ask_question\<close>: a dictionary
  with the store's \<open>_id\<close> and the fields written by ingestion. A key read with
  \<open>d.get\<close> may be absent, which is \<open>None\<close>.
\<close>

record document =
  doc_id :: string
  title :: "string option"
  url :: "string option"
  content :: "string option"
  tags :: "string list"

record AskRequest =
  question :: string
  top_k :: int

record source =
  source_id :: string
  source_title :: "string option"
  source_url :: "string option"

record response =
  answer :: string
  sources :: "source list"

datatype http_error =
    HTTPException int string
  | RequestValidationError

fun status_code :: "http_error \<Rightarrow> int" where
  \<comment> \<open>the status of the response; a request validation error is answered with 422\<close>
  "status_code (HTTPException code detail) = code"
| "status_code RequestValidationError = 422"


section \<open>Document store\<close>

datatype doc_filter = MatchAll | TagsIn "string list"

record store =
  collections :: "string \<Rightarrow> document list"
  failure :: "string option"
  queries :: "(string \<times> doc_filter \<times> nat) list"

fun matches :: "doc_filter \<Rightarrow> document \<Rightarrow> bool" where
  "matches MatchAll d = True"
| "matches (TagsIn ts) d = list_ex (\<lambda>t. t \<in> set (tags d)) ts"

text \<open>
  Modelled from the spec: \<open>database.get_documents(collection, filter, limit)\<close>, which the
  endpoints import; the specification describes it as a filtered find-with-limit that
  returns a sequence of records and fails when the store is unavailable. The model keeps
  a log of the queries made, so that "no query is performed" can be stated.
\<close>

definition get_documents ::
  "store \<Rightarrow> string \<Rightarrow> doc_filter \<Rightarrow> nat \<Rightarrow> (string + document list) \<times> store" where
  "get_documents st collection filt limit =
     (let st' = st\<lparr>queries := queries st @ [(collection, filt, limit)]\<rparr>
      in case failure st of
           Some e \<Rightarrow> (Inl e, st')
         | None \<Rightarrow> (Inr (take limit (filter (matches filt) (collections st collection))), st'))"


section \<open>Scoring\<close>

type_synonym counter = "string \<rightharpoonup> int"

definition counter_get :: "counter \<Rightarrow> string \<Rightarrow> int" where
  \<comment> \<open>\<open>counts[t]\<close>: a \<open>Counter\<close> gives 0 for a key it does not hold\<close>
  "counter_get counts t = (case counts t of None \<Rightarrow> 0 | Some n \<Rightarrow> n)"

definition Counter :: "string list \<Rightarrow> counter" where
  "Counter tokens = fold (\<lambda>w counts. counts(w \<mapsto> counter_get counts w + 1)) tokens Map.empty"

definition doc_score :: "string list \<Rightarrow> string list \<Rightarrow> int" where
  \<comment> \<open>\<open>sum(counts[t] for t in q_tokens)\<close> with \<open>counts = Counter(tokens)\<close>\<close>
  "doc_score q_tokens tokens =
     (let counts = Counter tokens in sum_list (map (counter_get counts) q_tokens))"

definition get_content :: "document \<Rightarrow> string" where
  \<comment> \<open>\<open>d.get("content", "")\<close>\<close>
  "get_content d = (case content d of None \<Rightarrow> [] | Some c \<Rightarrow> c)"

definition score_step ::
  "string list \<Rightarrow> (int \<times> document) list \<Rightarrow> document \<Rightarrow> (int \<times> document) list" where
  \<comment> \<open>one iteration of the loop over \<open>docs\<close>\<close>
  "score_step q_tokens scored d =
     (let tokens = tokenize (get_content d) in
      if tokens = [] then scored
      else let score = doc_score q_tokens tokens in
           if score > 0 then scored @ [(score, d)] else scored)"

definition score_docs :: "string list \<Rightarrow> document list \<Rightarrow> (int \<times> document) list" where
  "score_docs q_tokens docs = foldl (score_step q_tokens) [] docs"


section \<open>Ranking and selection\<close>

text \<open>
  \<open>list.sort(key=..., reverse=True)\<close>: Python's sort is stable, and with \<open>reverse\<close> it
  reverses the list, sorts it ascending and stably, and reverses the result. The
  ascending stable sort is \<^const>\<open>sort_key\<close>.
\<close>

definition list_sort :: "('a \<Rightarrow> int) \<Rightarrow> bool \<Rightarrow> 'a list \<Rightarrow> 'a list" where
  "list_sort key reverse xs =
     (if reverse then rev (sort_key key (rev xs)) else sort_key key xs)"

definition slice_to :: "'a list \<Rightarrow> int \<Rightarrow> 'a list" where
  \<comment> \<open>\<open>xs[:k]\<close>: a negative bound counts from the end\<close>
  "slice_to xs k =
     (if k < 0 then take (nat (int (length xs) + k)) xs else take (nat k) xs)"

definition rank :: "(int \<times> document) list \<Rightarrow> (int \<times> document) list" where
  \<comment> \<open>\<open>scored.sort(key=lambda x: x[0], reverse=True)\<close>\<close>
  "rank scored = list_sort fst True scored"

definition select_top :: "(int \<times> document) list \<Rightarrow> int \<Rightarrow> document list" where
  \<comment> \<open>\<open>[d for _, d in scored[: payload.top_k]]\<close> on the sorted list\<close>
  "select_top scored k = map snd (slice_to (rank scored) k)"


section \<open>Snippet extraction\<close>

text \<open>
  \<open>re.split(r"(?<=[.!?])\s+", text)\<close>: a separator is a run of whitespace that starts right
  behind one of the three terminators; it is matched greedily, and the pieces between
  the separators are returned, the last one possibly empty.
\<close>

function re_split :: "string \<Rightarrow> string list" where
  "re_split [] = [[]]"
| "re_split (c # cs) =
     (if is_terminator c \<and> cs \<noteq> [] \<and> is_space (hd cs)
      then [c] # re_split (dropWhile is_space cs)
      else (case re_split cs of [] \<Rightarrow> [[c]] | p # ps \<Rightarrow> (c # p) # ps))"
  by pat_completeness auto
termination
  by (relation "measure length") (auto simp: length_dropWhile_le less_Suc_eq_le)

fun select_sentences :: "string list \<Rightarrow> nat \<Rightarrow> string list \<Rightarrow> string list \<Rightarrow> string list" where
  \<comment> \<open>the loop over \<open>sentences\<close>, with \<open>selected\<close> as it stands\<close>
  "select_sentences q_terms max_chars selected [] = selected"
| "select_sentences q_terms max_chars selected (s # ss) =
     (let s_low = lower s;
          selected' = (if list_ex (\<lambda>t. contains s_low t) q_terms
                       then selected @ [strip s] else selected)
      in if sum_list (map length selected') > max_chars then selected'
         else select_sentences q_terms max_chars selected' ss)"

definition extract_snippets :: "string \<Rightarrow> string list \<Rightarrow> nat \<Rightarrow> string" where
  "extract_snippets text q_terms max_chars =
     (let sentences = re_split text;
          selected = select_sentences q_terms max_chars [] sentences
      in if selected \<noteq> [] then take max_chars (join '' '' selected)
         else take max_chars text)"

text \<open>
  The selection in the words of the specification: the sentences that contain a question
  token, in order, up to and including the one with which the running total of their
  lengths exceeds the limit.
\<close>

definition matching :: "string list \<Rightarrow> string \<Rightarrow> bool" where
  "matching q_terms s = (\<exists>t \<in> set q_terms. sublist t (lower s))"

fun accumulate :: "nat \<Rightarrow> nat \<Rightarrow> string list \<Rightarrow> string list" where
  "accumulate limit running [] = []"
| "accumulate limit running (s # ss) =
     s # (if running + length s > limit then []
          else accumulate limit (running + length s) ss)"

definition snippet_spec :: "string \<Rightarrow> string list \<Rightarrow> nat \<Rightarrow> string" where
  "snippet_spec text q_terms max_chars =
     (let matched = filter (matching q_terms) (re_split text)
      in if matched = [] then take max_chars text
         else take max_chars (join '' '' (accumulate max_chars 0 (map strip matched))))"

fun has_boundary :: "string \<Rightarrow> bool" where
  \<comment> \<open>a terminator directly followed by whitespace occurs in the string\<close>
  "has_boundary (a # b # cs) = (is_terminator a \<and> is_space b \<or> has_boundary (b # cs))"
| "has_boundary _ = False"

fun interleave :: "string list \<Rightarrow> string list \<Rightarrow> string" where
  \<comment> \<open>the pieces with a separator behind each but the last\<close>
  "interleave [] seps = []"
| "interleave [p] seps = p"
| "interleave (p # ps) [] = p @ interleave ps []"
| "interleave (p # ps) (w # seps) = p @ w @ interleave ps seps"


section \<open>The question-answering endpoint\<close>

definition normalize_source :: "document \<Rightarrow> source" where
  "normalize_source d = \<lparr>source_id = doc_id d, source_title = title d, source_url = url d\<rparr>"

definition compose_answer :: "string list \<Rightarrow> document list \<Rightarrow> response" where
  \<comment> \<open>the lines of \<open>ask_question\<close> behind the selection of \<open>top\<close>\<close>
  "compose_answer q_tokens top_docs =
     (let snippets = map (\<lambda>d. extract_snippets (get_content d) q_tokens 600) top_docs;
          combined = join [CHR '' '', CHR 0x0A, CHR 0x0A] snippets
      in \<lparr>answer = ''Here's what I found based on your resources: '' @ [CHR 0x0A, CHR 0x0A]
             @ combined @ [CHR 0x0A, CHR 0x0A]
             @ ''If you'd like, you can add more sources for better answers.'',
          sources = map normalize_source top_docs\<rparr>)"

definition ask_question :: "store \<Rightarrow> AskRequest \<Rightarrow> (http_error + response) \<times> store" where
  "ask_question st payload =
     (let q = strip (question payload) in
      if q = [] then (Inl (HTTPException 400 ''Empty question''), st)
      else case get_documents st ''resource'' MatchAll 100 of
          (Inl e, st') \<Rightarrow> (Inl (HTTPException 500 (''Database error: '' @ e)), st')
        | (Inr docs, st') \<Rightarrow>
            if docs = []
            then (Inr \<lparr>answer = ''I don't have any resources yet. Please add a website or docs first.'',
                       sources = []\<rparr>, st')
            else let q_tokens = tokenize q;
                     scored = score_docs q_tokens docs
                 in if scored = []
                    then (Inr \<lparr>answer = ''I couldn't find information about that in the provided resources.'',
                               sources = []\<rparr>, st')
                    else (Inr (compose_answer q_tokens (select_top scored (top_k payload))), st'))"

definition api_ask :: "store \<Rightarrow> AskRequest \<Rightarrow> (http_error + response) \<times> store" where
  \<comment> \<open>the route \<open>POST /api/ask\<close>: the body is validated against \<open>AskRequest\<close>
      (\<open>min_length=3\<close> on \<open>question\<close>) before the handler runs; a body that fails is
      answered with the framework's validation error\<close>
  "api_ask st payload =
     (if length (question payload) < 3 then (Inl RequestValidationError, st)
      else ask_question st payload)"


section \<open>Example data\<close>

text \<open>Resources and stores on which the properties below are evaluated.\<close>

definition rust_book :: document where
  "rust_book = \<lparr>doc_id = ''a1'', title = Some ''Rust Book'', url = None,
     content = Some ''Rust is a systems programming language. It guarantees memory safety.'',
     tags = []\<rparr>"

definition rust_notes :: document where
  "rust_notes = \<lparr>doc_id = ''a2'', title = Some ''Notes'', url = None,
     content = Some ''Rust, rust and more rust.'', tags = []\<rparr>"

definition cooking :: document where
  "cooking = \<lparr>doc_id = ''a3'', title = Some ''Cooking'', url = None,
     content = Some ''Boil the pasta.'', tags = []\<rparr>"

definition example_store :: store where
  "example_store = \<lparr>collections = (\<lambda>c. if c = ''resource'' then [rust_book, cooking, rust_notes] else []),
     failure = None, queries = []\<rparr>"

definition big_store :: store where
  "big_store = \<lparr>collections = (\<lambda>c. if c = ''resource'' then replicate 100 cooking @ [rust_book] else []),
     failure = None, queries = []\<rparr>"

definition empty_store :: store where
  "empty_store = \<lparr>collections = (\<lambda>c. []), failure = None, queries = []\<rparr>"


section \<open>Properties of the tokenizer\<close>

lemma is_alnum_lower_char: "is_alnum c \<Longrightarrow> is_alnum (lower_char c)"
  by (auto simp: is_alnum_def lower_char_def Let_def)

lemma lower_char_idem: "is_alnum c \<Longrightarrow> lower_char (lower_char c) = lower_char c"
  by (auto simp: is_alnum_def lower_char_def Let_def)

lemma is_alnum_ascii_lower: "is_alnum (ascii_lower_char c) = is_alnum c"
  by (auto simp: is_alnum_def ascii_lower_char_def Let_def)

lemma is_alnum_ascii_upper: "is_alnum (ascii_upper_char c) = is_alnum c"
  by (auto simp: is_alnum_def ascii_upper_char_def Let_def)

lemma lower_ascii_lower: "lower_char (ascii_lower_char c) = lower_char c"
  by (auto simp: lower_char_def ascii_lower_char_def Let_def)

lemma lower_ascii_upper: "lower_char (ascii_upper_char c) = lower_char c"
proof (cases "97 \<le> (of_char c :: nat) \<and> (of_char c :: nat) \<le> 122")
  case False
  then have "ascii_upper_char c = c" by (auto simp: ascii_upper_char_def Let_def)
  then show ?thesis by simp
next
  case True
  define n where "n = (of_char c :: nat)"
  have n: "97 \<le> n" "n \<le> 122" using True by (simp_all add: n_def)
  have up: "ascii_upper_char c = char_of (n - 32)"
    using n by (simp add: ascii_upper_char_def Let_def n_def)
  have "(n - 32) mod 256 = n - 32" using n by (intro mod_less) arith
  then have v: "(of_char (char_of (n - 32)) :: nat) = n - 32" by simp
  have "65 \<le> n - 32 \<and> n - 32 \<le> 90" using n by arith
  then have "lower_char (char_of (n - 32)) = char_of (n - 32 + 32)"
    unfolding lower_char_def Let_def v by simp
  also have "n - 32 + 32 = n" using n by arith
  also have "char_of n = c" by (simp add: n_def)
  also have "c = lower_char c" using n by (simp add: lower_char_def Let_def n_def)
  finally show ?thesis by (simp only: up)
qed

lemma pieces_nonempty: "pieces sep s \<noteq> []"
  by (induction s) (auto split: list.splits)

lemma hd_pieces: "s = [] \<or> sep (hd s) \<Longrightarrow> hd (pieces sep s) = []"
  by (cases s) auto

lemma pieces_run:
  "\<forall>c\<in>set w. \<not> sep c \<Longrightarrow> pieces sep (w @ s) = (w @ hd (pieces sep s)) # tl (pieces sep s)"
  by (induction w) (auto simp: pieces_nonempty split: list.splits)

lemma pieces_no_sep: "p \<in> set (pieces sep s) \<Longrightarrow> c \<in> set p \<Longrightarrow> \<not> sep c"
proof (induction s arbitrary: p)
  case Nil
  then show ?case by simp
next
  case (Cons a s)
  show ?case
  proof (cases "sep a")
    case True
    with Cons show ?thesis by auto
  next
    case False
    obtain q qs where q: "pieces sep s = q # qs"
      using pieces_nonempty[of sep s] by (cases "pieces sep s") auto
    with Cons.prems False have "p = a # q \<or> p \<in> set qs" by simp
    then show ?thesis
    proof
      assume "p = a # q"
      with Cons.prems(2) have "c = a \<or> c \<in> set q" by simp
      then show ?thesis using False Cons.IH[of q] q by auto
    next
      assume "p \<in> set qs"
      then show ?thesis using Cons.IH[of p] Cons.prems(2) q by simp
    qed
  qed
qed

lemma filter_pieces_run:
  assumes "w \<noteq> []" and "\<forall>c\<in>set w. \<not> sep c" and "r = [] \<or> sep (hd r)"
  shows "filter (\<lambda>w. w \<noteq> []) (pieces sep (w @ r)) = w # filter (\<lambda>w. w \<noteq> []) (pieces sep r)"
proof -
  obtain ps where ps: "pieces sep r = [] # ps"
    using hd_pieces[of r sep] assms(3) pieces_nonempty[of sep r] by (cases "pieces sep r") auto
  have "pieces sep (w @ r) = w # ps"
    using pieces_run[OF assms(2), of r] ps by simp
  then show ?thesis using ps assms(1) by simp
qed

lemma findall_pieces:
  "findall_alnum t = filter (\<lambda>w. w \<noteq> []) (pieces (\<lambda>c. \<not> is_alnum c) t)"
proof (induction t rule: findall_alnum.induct)
  case 1
  show ?case by simp
next
  case (2 c cs)
  show ?case
  proof (cases "is_alnum c")
    case False
    with 2 show ?thesis by simp
  next
    case True
    define w where "w = takeWhile is_alnum (c # cs)"
    define r where "r = dropWhile is_alnum cs"
    have split: "c # cs = w @ r" using True by (simp add: w_def r_def)
    have "w \<noteq> []" using True by (simp add: w_def)
    moreover have "\<forall>x\<in>set w. \<not> \<not> is_alnum x" by (auto simp: w_def dest: set_takeWhileD)
    moreover have "r = [] \<or> \<not> is_alnum (hd r)"
      unfolding r_def using hd_dropWhile[of is_alnum cs] by blast
    ultimately have "filter (\<lambda>w. w \<noteq> []) (pieces (\<lambda>c. \<not> is_alnum c) (w @ r))
        = w # filter (\<lambda>w. w \<noteq> []) (pieces (\<lambda>c. \<not> is_alnum c) r)"
      by (rule filter_pieces_run)
    moreover have "findall_alnum (c # cs) = w # findall_alnum r"
      using True by (simp add: w_def r_def)
    moreover have "findall_alnum r = filter (\<lambda>w. w \<noteq> []) (pieces (\<lambda>c. \<not> is_alnum c) r)"
      using 2(1)[OF True] by (simp add: r_def)
    ultimately show ?thesis by (simp only: split)
  qed
qed

lemma findall_alnum_tokens:
  assumes "w \<in> set (findall_alnum t)"
  shows "w \<noteq> [] \<and> (\<forall>c\<in>set w. is_alnum c)"
proof -
  from assms have "w \<noteq> []" and "w \<in> set (pieces (\<lambda>c. \<not> is_alnum c) t)"
    by (simp_all add: findall_pieces)
  then show ?thesis using pieces_no_sep[of w "\<lambda>c. \<not> is_alnum c" t] by blast
qed

lemma findall_alnum_run:
  assumes "w \<noteq> []" and "\<forall>c\<in>set w. is_alnum c" and "r = [] \<or> \<not> is_alnum (hd r)"
  shows "findall_alnum (w @ r) = w # findall_alnum r"
  using assms by (simp add: findall_pieces filter_pieces_run)

lemma findall_alnum_join:
  "\<forall>w\<in>set ws. w \<noteq> [] \<and> (\<forall>c\<in>set w. is_alnum c) \<Longrightarrow> findall_alnum (join '' '' ws) = ws"
proof (induction ws)
  case Nil
  show ?case by simp
next
  case (Cons x xs)
  show ?case
  proof (cases xs)
    case Nil
    then show ?thesis using Cons.prems findall_alnum_run[of x "[]"] by simp
  next
    case (Cons y ys)
    have "findall_alnum (x @ ('' '' @ join '' '' xs)) = x # findall_alnum ('' '' @ join '' '' xs)"
      using Cons.prems by (intro findall_alnum_run) (auto simp: is_alnum_def)
    also have "findall_alnum ('' '' @ join '' '' xs) = findall_alnum (join '' '' xs)"
      by (simp add: is_alnum_def)
    finally show ?thesis using Cons.IH Cons.prems Cons by simp
  qed
qed

lemma tokenize_tokens:
  assumes "w \<in> set (tokenize t)"
  shows "w \<noteq> [] \<and> (\<forall>c\<in>set w. is_alnum c) \<and> lower w = w"
proof -
  from assms obtain v where v: "v \<in> set (findall_alnum t)" and w: "w = lower v"
    by (auto simp: tokenize_def)
  from findall_alnum_tokens[OF v] have ne: "v \<noteq> []" and al: "\<forall>c\<in>set v. is_alnum c"
    by simp_all
  have "w \<noteq> []" using ne by (simp add: w lower_def)
  moreover have "\<forall>c\<in>set w. is_alnum c"
    using al by (auto simp: w lower_def intro: is_alnum_lower_char)
  moreover have "lower w = w"
    unfolding w lower_def map_map using al by (intro map_cong) (simp_all add: lower_char_idem)
  ultimately show ?thesis by blast
qed

lemma tokenize_join_tokens:
  "\<forall>w\<in>set ws. w \<noteq> [] \<and> (\<forall>c\<in>set w. is_alnum c) \<and> lower w = w \<Longrightarrow> tokenize (join '' '' ws) = ws"
  by (simp add: tokenize_def findall_alnum_join map_idI)

lemma tokenize_idem: "tokenize (join '' '' (tokenize t)) = tokenize t"
  by (rule tokenize_join_tokens) (use tokenize_tokens in blast)

lemma pieces_map:
  "(\<And>c. sep (f c) = sep c) \<Longrightarrow> pieces sep (map f s) = map (map f) (pieces sep s)"
  by (induction s) (auto split: list.splits)

lemma findall_alnum_map:
  assumes "\<And>c. is_alnum (f c) = is_alnum c"
  shows "findall_alnum (map f s) = map (map f) (findall_alnum s)"
proof -
  have "pieces (\<lambda>c. \<not> is_alnum c) (map f s) = map (map f) (pieces (\<lambda>c. \<not> is_alnum c) s)"
    by (rule pieces_map) (simp add: assms)
  then show ?thesis by (simp add: findall_pieces filter_map comp_def)
qed

lemma tokenize_map_case:
  assumes "\<And>c. is_alnum (f c) = is_alnum c" and "\<And>c. lower_char (f c) = lower_char c"
  shows "tokenize (map f s) = tokenize s"
proof -
  have "map lower_char \<circ> map f = map lower_char"
    by (rule ext) (simp add: assms(2))
  then show ?thesis
    by (simp add: tokenize_def lower_def findall_alnum_map[OF assms(1)] fun_eq_iff)
qed


section \<open>Properties of scoring\<close>

lemma counter_get_upd:
  "counter_get (counts(w \<mapsto> counter_get counts w + 1)) t
     = counter_get counts t + (if w = t then 1 else 0)"
  by (simp add: counter_get_def)

lemma counter_get_fold:
  "counter_get (fold (\<lambda>w counts. counts(w \<mapsto> counter_get counts w + 1)) tokens m) t
     = counter_get m t + int (count_list tokens t)"
proof (induction tokens arbitrary: m)
  case Nil
  show ?case by simp
next
  case (Cons w ws)
  have "counter_get (fold (\<lambda>w counts. counts(w \<mapsto> counter_get counts w + 1)) (w # ws) m) t
      = counter_get (m(w \<mapsto> counter_get m w + 1)) t + int (count_list ws t)"
    by (simp only: fold.simps o_apply Cons.IH)
  also have "\<dots> = counter_get m t + int (count_list (w # ws) t)"
    by (simp only: counter_get_upd) simp
  finally show ?case .
qed

lemma counter_get_Counter: "counter_get (Counter tokens) t = int (count_list tokens t)"
  by (simp add: Counter_def counter_get_fold) (simp add: counter_get_def)

lemma doc_score_sum: "doc_score q_tokens tokens = (\<Sum>t\<leftarrow>q_tokens. int (count_list tokens t))"
  by (simp add: doc_score_def counter_get_Counter cong: map_cong)

lemma doc_score_nonneg: "0 \<le> doc_score q_tokens tokens"
  unfolding doc_score_sum by (rule sum_list_nonneg) auto

lemma doc_score_Nil: "doc_score q_tokens [] = 0"
  by (simp add: doc_score_sum)

lemma foldl_score_step:
  "foldl (score_step q) acc docs
     = acc @ map (\<lambda>d. (doc_score q (tokenize (get_content d)), d)) (filter (\<lambda>d. tokenize (get_content d) \<noteq> []
                    \<and> 0 < doc_score q (tokenize (get_content d))) docs)"
  by (induction docs arbitrary: acc) (simp_all add: score_step_def Let_def)

lemma score_docs_map_filter:
  "score_docs q docs
     = map (\<lambda>d. (doc_score q (tokenize (get_content d)), d)) (filter (\<lambda>d. tokenize (get_content d) \<noteq> []
                    \<and> 0 < doc_score q (tokenize (get_content d))) docs)"
  by (simp add: score_docs_def foldl_score_step)

lemma doc_score_mono:
  assumes "\<forall>t\<in>set q. count_list toks1 t \<le> count_list toks2 t"
  shows "doc_score q toks1 \<le> doc_score q toks2"
  unfolding doc_score_sum using assms by (intro sum_list_mono) simp


section \<open>Properties of sorting and slicing\<close>

lemma list_sort_reverse_sorted:
  "sorted_wrt (\<lambda>a b. key b \<le> key a) (list_sort key True xs)"
proof -
  have "sorted (map key (sort_key key (rev xs)))" by simp
  then have "sorted_wrt (\<lambda>a b. key a \<le> key b) (sort_key key (rev xs))"
    by (simp add: sorted_map)
  then show ?thesis
    by (simp add: list_sort_def sorted_wrt_rev)
qed

lemma list_sort_reverse_stable:
  "filter (\<lambda>x. key x = k) (list_sort key True xs) = filter (\<lambda>x. key x = k) xs"
proof -
  have "filter (\<lambda>x. key x = k) (rev (sort_key key (rev xs)))
      = rev (filter (\<lambda>x. key x = k) (sort_key key (rev xs)))"
    by (simp only: rev_filter)
  also have "\<dots> = rev (filter (\<lambda>x. key x = k) (rev xs))"
    by (simp only: sort_key_stable)
  also have "\<dots> = filter (\<lambda>x. key x = k) xs"
    by (simp only: rev_filter rev_rev_ident)
  finally show ?thesis by (simp add: list_sort_def)
qed

lemma list_sort_mset: "mset (list_sort key r xs) = mset xs"
  by (simp add: list_sort_def)

lemma length_list_sort: "length (list_sort key r xs) = length xs"
  by (simp add: list_sort_def)

lemma length_slice_to:
  "int (length (slice_to xs k)) =
     (if k < 0 then max 0 (int (length xs) + k) else min k (int (length xs)))"
  by (auto simp: slice_to_def)

lemma length_select_top:
  "int (length (select_top scored k)) =
     (if k < 0 then max 0 (int (length scored) + k) else min k (int (length scored)))"
  by (simp add: select_top_def rank_def length_slice_to length_list_sort)


section \<open>Properties of snippet extraction\<close>

lemma contains_sublist: "contains s t \<longleftrightarrow> sublist t s"
  by (induction s) (simp_all add: sublist_Cons_right)

lemma list_ex_contains: "list_ex (\<lambda>t. contains (lower s) t) q_terms \<longleftrightarrow> matching q_terms s"
  by (simp add: matching_def list_ex_iff contains_sublist)

lemma accumulate_Nil_iff: "accumulate limit r xs = [] \<longleftrightarrow> xs = []"
  by (cases xs) simp_all

lemma select_sentences_accumulate:
  "sum_list (map length selected) \<le> max_chars \<Longrightarrow>
   select_sentences q_terms max_chars selected ss
     = selected @ accumulate max_chars (sum_list (map length selected))
                    (map strip (filter (matching q_terms) ss))"
proof (induction ss arbitrary: selected)
  case Nil
  show ?case by simp
next
  case (Cons s ss)
  show ?case
  proof (cases "matching q_terms s")
    case False
    then show ?thesis using Cons by (simp add: list_ex_contains Let_def)
  next
    case True
    show ?thesis
    proof (cases "sum_list (map length selected) + length (strip s) > max_chars")
      case True
      with \<open>matching q_terms s\<close> show ?thesis
        by (simp add: list_ex_contains Let_def)
    next
      case False
      then have "sum_list (map length (selected @ [strip s])) \<le> max_chars" by simp
      from Cons.IH[OF this] False \<open>matching q_terms s\<close> show ?thesis
        by (simp add: list_ex_contains Let_def)
    qed
  qed
qed

lemma extract_snippets_spec: "extract_snippets text q_terms max_chars = snippet_spec text q_terms max_chars"
  by (simp add: extract_snippets_def snippet_spec_def Let_def select_sentences_accumulate
      accumulate_Nil_iff)

lemma length_extract_snippets: "length (extract_snippets text q_terms max_chars) \<le> max_chars"
  by (simp add: extract_snippets_def Let_def)

lemma re_split_nonempty: "re_split t \<noteq> []"
  by (induction t rule: re_split.induct) (auto split: list.splits)

lemma re_split_Cons_else:
  "\<not> (is_terminator c \<and> cs \<noteq> [] \<and> is_space (hd cs)) \<Longrightarrow>
   re_split (c # cs) = (c # hd (re_split cs)) # tl (re_split cs)"
  using re_split_nonempty[of cs] by (cases "re_split cs") auto

lemma re_split_Cons_then:
  "is_terminator c \<Longrightarrow> cs \<noteq> [] \<Longrightarrow> is_space (hd cs) \<Longrightarrow>
   re_split (c # cs) = [c] # re_split (dropWhile is_space cs)"
  by simp

lemma hd_re_split: "t \<noteq> [] \<Longrightarrow> hd (re_split t) \<noteq> [] \<and> hd (hd (re_split t)) = hd t"
proof (cases t)
  case Nil
  assume "t \<noteq> []"
  with Nil show ?thesis by simp
next
  case (Cons c cs)
  show ?thesis
  proof (cases "is_terminator c \<and> cs \<noteq> [] \<and> is_space (hd cs)")
    case True
    then show ?thesis using Cons by simp
  next
    case False
    then show ?thesis using Cons re_split_Cons_else[OF False] by simp
  qed
qed

lemma re_split_butlast:
  "s \<in> set (butlast (re_split t)) \<Longrightarrow> s \<noteq> [] \<and> is_terminator (last s)"
proof (induction t arbitrary: s rule: re_split.induct)
  case 1
  then show ?case by simp
next
  case (2 c cs)
  show ?case
  proof (cases "is_terminator c \<and> cs \<noteq> [] \<and> is_space (hd cs)")
    case True
    then have "butlast (re_split (c # cs)) = [c] # butlast (re_split (dropWhile is_space cs))"
      using re_split_nonempty[of "dropWhile is_space cs"] by simp
    with "2.prems" have "s = [c] \<or> s \<in> set (butlast (re_split (dropWhile is_space cs)))"
      by simp
    then show ?thesis using True "2.IH"(1)[OF True] by auto
  next
    case False
    obtain p ps where p: "re_split cs = p # ps"
      using re_split_nonempty[of cs] by (cases "re_split cs") auto
    have eq: "re_split (c # cs) = (c # p) # ps"
      using re_split_Cons_else[OF False] p by simp
    show ?thesis
    proof (cases "ps = []")
      case True
      with eq "2.prems" show ?thesis by simp
    next
      case ne: False
      then have "butlast (re_split (c # cs)) = (c # p) # butlast ps"
        using eq by simp
      with "2.prems" have "s = c # p \<or> s \<in> set (butlast ps)" by simp
      moreover have bl: "butlast (re_split cs) = p # butlast ps" using p ne by simp
      ultimately show ?thesis
        using "2.IH"(2)[OF False, of p] "2.IH"(2)[OF False, of s] by auto
    qed
  qed
qed

lemma re_split_tl:
  "s \<in> set (tl (re_split t)) \<Longrightarrow> s = [] \<or> \<not> is_space (hd s)"
proof (induction t arbitrary: s rule: re_split.induct)
  case 1
  then show ?case by simp
next
  case (2 c cs)
  show ?case
  proof (cases "is_terminator c \<and> cs \<noteq> [] \<and> is_space (hd cs)")
    case True
    let ?u = "dropWhile is_space cs"
    from True "2.prems" have "s \<in> set (re_split ?u)" by simp
    then have "s = hd (re_split ?u) \<or> s \<in> set (tl (re_split ?u))"
      using re_split_nonempty[of ?u] by (cases "re_split ?u") auto
    then show ?thesis
    proof
      assume s: "s = hd (re_split ?u)"
      show ?thesis
      proof (cases "?u = []")
        case True
        with s show ?thesis by simp
      next
        case False
        then have "hd s = hd ?u" using hd_re_split[OF False] s by simp
        moreover have "\<not> is_space (hd ?u)" using False hd_dropWhile[of is_space cs] by blast
        ultimately show ?thesis by simp
      qed
    next
      assume "s \<in> set (tl (re_split ?u))"
      then show ?thesis using "2.IH"(1)[OF True] by blast
    qed
  next
    case False
    then have "tl (re_split (c # cs)) = tl (re_split cs)"
      using re_split_Cons_else[OF False] by simp
    with "2.prems" "2.IH"(2)[OF False] show ?thesis by simp
  qed
qed

lemma has_boundary_Cons:
  "has_boundary (c # p) \<longleftrightarrow> (p \<noteq> [] \<and> is_terminator c \<and> is_space (hd p)) \<or> has_boundary p"
  by (cases p) auto

lemma re_split_no_boundary:
  "s \<in> set (re_split t) \<Longrightarrow> \<not> has_boundary s"
proof (induction t arbitrary: s rule: re_split.induct)
  case 1
  then show ?case by simp
next
  case (2 c cs)
  show ?case
  proof (cases "is_terminator c \<and> cs \<noteq> [] \<and> is_space (hd cs)")
    case True
    with "2.prems" have "s = [c] \<or> s \<in> set (re_split (dropWhile is_space cs))" by simp
    then show ?thesis using "2.IH"(1)[OF True] by auto
  next
    case False
    obtain p ps where p: "re_split cs = p # ps"
      using re_split_nonempty[of cs] by (cases "re_split cs") auto
    have eq: "re_split (c # cs) = (c # p) # ps"
      using re_split_Cons_else[OF False] p by simp
    from "2.prems" eq have "s = c # p \<or> s \<in> set ps" by simp
    then show ?thesis
    proof
      assume s: "s = c # p"
      have np: "\<not> has_boundary p" using "2.IH"(2)[OF False, of p] p by simp
      have "\<not> (p \<noteq> [] \<and> is_terminator c \<and> is_space (hd p))"
      proof (cases "cs = []")
        case True
        with p show ?thesis by simp
      next
        case ne: False
        then have "p \<noteq> [] \<and> hd p = hd cs" using hd_re_split[OF ne] p by simp
        with False ne show ?thesis by auto
      qed
      with np s show ?thesis by (simp only: has_boundary_Cons) simp
    next
      assume "s \<in> set ps"
      then show ?thesis using "2.IH"(2)[OF False, of s] p by simp
    qed
  qed
qed

lemma interleave_Cons_hd:
  "ps \<noteq> [] \<Longrightarrow> interleave ((c # hd ps) # tl ps) seps = c # interleave ps seps"
proof (cases ps)
  case Nil
  assume "ps \<noteq> []"
  with Nil show ?thesis by simp
next
  case (Cons p qs)
  show ?thesis
  proof (cases qs)
    case Nil
    with Cons show ?thesis by simp
  next
    case c2: (Cons q rs)
    with Cons show ?thesis by (cases seps) simp_all
  qed
qed

lemma interleave_sep:
  "ps \<noteq> [] \<Longrightarrow> interleave (p # ps) (w # seps) = p @ w @ interleave ps seps"
  by (cases ps) simp_all

lemma re_split_interleave:
  "\<exists>seps. length seps + 1 = length (re_split t)
         \<and> (\<forall>w\<in>set seps. w \<noteq> [] \<and> (\<forall>c\<in>set w. is_space c))
         \<and> interleave (re_split t) seps = t"
proof (induction t rule: re_split.induct)
  case 1
  show ?case by simp
next
  case (2 c cs)
  show ?case
  proof (cases "is_terminator c \<and> cs \<noteq> [] \<and> is_space (hd cs)")
    case True
    let ?w = "takeWhile is_space cs"
    let ?u = "dropWhile is_space cs"
    from "2.IH"(1)[OF True] obtain seps where
      len: "length seps + 1 = length (re_split ?u)"
      and ws: "\<forall>w\<in>set seps. w \<noteq> [] \<and> (\<forall>c\<in>set w. is_space c)"
      and inter: "interleave (re_split ?u) seps = ?u" by blast
    have w: "?w \<noteq> [] \<and> (\<forall>c\<in>set ?w. is_space c)"
      using True by (cases cs) (auto dest: set_takeWhileD)
    have eq: "re_split (c # cs) = [c] # re_split ?u" using True by simp
    have "interleave (re_split (c # cs)) (?w # seps) = [c] @ ?w @ interleave (re_split ?u) seps"
      unfolding eq by (rule interleave_sep) (rule re_split_nonempty)
    also have "\<dots> = c # cs" using inter by simp
    finally have "interleave (re_split (c # cs)) (?w # seps) = c # cs" .
    moreover have "length (?w # seps) + 1 = length (re_split (c # cs))"
      using len eq by simp
    moreover have "\<forall>v\<in>set (?w # seps). v \<noteq> [] \<and> (\<forall>c\<in>set v. is_space c)"
      using w ws by simp
    ultimately show ?thesis by blast
  next
    case False
    from "2.IH"(2)[OF False] obtain seps where
      len: "length seps + 1 = length (re_split cs)"
      and ws: "\<forall>w\<in>set seps. w \<noteq> [] \<and> (\<forall>c\<in>set w. is_space c)"
      and inter: "interleave (re_split cs) seps = cs" by blast
    have eq: "re_split (c # cs) = (c # hd (re_split cs)) # tl (re_split cs)"
      by (rule re_split_Cons_else[OF False])
    have "interleave (re_split (c # cs)) seps = c # interleave (re_split cs) seps"
      unfolding eq by (rule interleave_Cons_hd) (rule re_split_nonempty)
    then have "interleave (re_split (c # cs)) seps = c # cs" using inter by simp
    moreover have "length seps + 1 = length (re_split (c # cs))"
      using len eq re_split_nonempty[of cs] by (cases "re_split cs") simp_all
    ultimately show ?thesis using ws by blast
  qed
qed


section \<open>Properties of the endpoint\<close>

lemma strip_Nil_iff: "strip s = [] \<longleftrightarrow> (\<forall>c\<in>set s. is_space c)"
proof
  assume "\<forall>c\<in>set s. is_space c"
  then have "dropWhile is_space s = []" by (simp add: dropWhile_eq_Nil_conv)
  then show "strip s = []" by (simp only: strip_def rev.simps dropWhile.simps)
next
  assume a: "strip s = []"
  let ?u = "dropWhile is_space s"
  from a have "dropWhile is_space (rev ?u) = []" by (simp add: strip_def)
  then have all: "\<forall>c\<in>set ?u. is_space c" by (simp add: dropWhile_eq_Nil_conv)
  have "?u = []"
  proof (rule ccontr)
    assume ne: "?u \<noteq> []"
    then have "\<not> is_space (hd ?u)" using hd_dropWhile[of is_space s] by blast
    moreover have "hd ?u \<in> set ?u" using ne by simp
    ultimately show False using all by blast
  qed
  then show "\<forall>c\<in>set s. is_space c" by (simp add: dropWhile_eq_Nil_conv)
qed

lemma get_documents_all:
  "get_documents st coll MatchAll limit =
     ((case failure st of Some e \<Rightarrow> Inl e | None \<Rightarrow> Inr (take limit (collections st coll))),
      st\<lparr>queries := queries st @ [(coll, MatchAll, limit)]\<rparr>)"
  by (simp add: get_documents_def Let_def split: option.splits)

lemma ask_question_blank:
  "strip (question p) = [] \<Longrightarrow>
   ask_question st p = (Inl (HTTPException 400 ''Empty question''), st)"
  by (simp add: ask_question_def)

lemma ask_question_failure:
  "strip (question p) \<noteq> [] \<Longrightarrow> failure st = Some e \<Longrightarrow>
   ask_question st p = (Inl (HTTPException 500 (''Database error: '' @ e)),
                        st\<lparr>queries := queries st @ [(''resource'', MatchAll, 100)]\<rparr>)"
  by (simp add: ask_question_def get_documents_all)

lemma ask_question_no_docs:
  "strip (question p) \<noteq> [] \<Longrightarrow> failure st = None \<Longrightarrow> take 100 (collections st ''resource'') = [] \<Longrightarrow>
   ask_question st p =
     (Inr \<lparr>answer = ''I don't have any resources yet. Please add a website or docs first.'',
           sources = []\<rparr>,
      st\<lparr>queries := queries st @ [(''resource'', MatchAll, 100)]\<rparr>)"
  by (simp add: ask_question_def get_documents_all)

lemma ask_question_no_match:
  "strip (question p) \<noteq> [] \<Longrightarrow> failure st = None \<Longrightarrow> take 100 (collections st ''resource'') \<noteq> [] \<Longrightarrow>
   score_docs (tokenize (strip (question p))) (take 100 (collections st ''resource'')) = [] \<Longrightarrow>
   ask_question st p =
     (Inr \<lparr>answer = ''I couldn't find information about that in the provided resources.'',
           sources = []\<rparr>,
      st\<lparr>queries := queries st @ [(''resource'', MatchAll, 100)]\<rparr>)"
  by (simp add: ask_question_def get_documents_all Let_def)

lemma ask_question_found:
  "strip (question p) \<noteq> [] \<Longrightarrow> failure st = None \<Longrightarrow>
   score_docs (tokenize (strip (question p))) (take 100 (collections st ''resource'')) \<noteq> [] \<Longrightarrow>
   ask_question st p =
     (Inr (compose_answer (tokenize (strip (question p)))
            (select_top (score_docs (tokenize (strip (question p)))
                           (take 100 (collections st ''resource''))) (top_k p))),
      st\<lparr>queries := queries st @ [(''resource'', MatchAll, 100)]\<rparr>)"
proof -
  assume a: "strip (question p) \<noteq> []" "failure st = None"
    and b: "score_docs (tokenize (strip (question p))) (take 100 (collections st ''resource'')) \<noteq> []"
  from b have "take 100 (collections st ''resource'') \<noteq> []"
    by (auto simp: score_docs_def)
  with a b show ?thesis
    by (simp add: ask_question_def get_documents_all Let_def)
qed

lemma sources_compose_answer: "sources (compose_answer q ds) = map normalize_source ds"
  by (simp add: compose_answer_def Let_def)

lemma length_score_docs:
  "length (score_docs q docs)
     = length (filter (\<lambda>d. 0 < doc_score q (tokenize (get_content d))) docs)"
proof -
  have "filter (\<lambda>d. tokenize (get_content d) \<noteq> [] \<and> 0 < doc_score q (tokenize (get_content d))) docs
      = filter (\<lambda>d. 0 < doc_score q (tokenize (get_content d))) docs"
    by (rule filter_cong) (auto simp: doc_score_Nil)
  then show ?thesis by (simp add: score_docs_map_filter)
qed

lemma score_docs_Nil_iff:
  "score_docs q docs = [] \<longleftrightarrow> (\<forall>d\<in>set docs. \<not> 0 < doc_score q (tokenize (get_content d)))"
proof -
  have "score_docs q docs = [] \<longleftrightarrow> length (score_docs q docs) = 0" by simp
  also have "\<dots> \<longleftrightarrow> (\<forall>d\<in>set docs. \<not> 0 < doc_score q (tokenize (get_content d)))"
    unfolding length_score_docs by (simp add: filter_empty_conv)
  finally show ?thesis .
qed

lemma get_documents_Inr:
  "fst (get_documents st coll MatchAll limit) = Inr docs \<longleftrightarrow>
     failure st = None \<and> docs = take limit (collections st coll)"
  by (auto simp: get_documents_all split: option.splits)

lemma set_select_top: "set (select_top scored k) \<subseteq> snd ` set scored"
proof -
  have "set (slice_to (rank scored) k) \<subseteq> set (rank scored)"
    by (auto simp: slice_to_def dest: in_set_takeD)
  moreover have "set (rank scored) = set scored"
    using list_sort_mset[of fst True scored] by (metis rank_def set_mset_mset)
  ultimately show ?thesis by (auto simp: select_top_def)
qed

lemma snd_score_docs: "snd ` set (score_docs q docs) \<subseteq> set docs"
  by (auto simp: score_docs_map_filter)


section \<open>The claims\<close>

text \<open>
  Claim C1. The score of a document is the sum, over the question's tokens with their
  repetitions, of the number of times the token occurs among the document's tokens. The
  loop over the candidates keeps, in order, exactly the documents whose token sequence is
  not empty and whose score is positive, each with that score: a document without tokens
  and a document that scores zero do not appear in the list that is ranked.
\<close>

theorem score_is_sum_of_counts:
  "doc_score q_tokens tokens = (\<Sum>t\<leftarrow>q_tokens. int (count_list tokens t))
   \<and> score_docs q_tokens docs =
       map (\<lambda>d. ((\<Sum>t\<leftarrow>q_tokens. int (count_list (tokenize (get_content d)) t)), d))
         (filter (\<lambda>d. tokenize (get_content d) \<noteq> []
                    \<and> 0 < (\<Sum>t\<leftarrow>q_tokens. int (count_list (tokenize (get_content d)) t))) docs)"
  by (simp add: score_docs_map_filter doc_score_sum)

theorem score_is_sum_of_counts_witness:
  "doc_score [''rust'', ''is'', ''rust''] (tokenize ''Rust is. Rust!'') = 5
   \<and> score_docs (tokenize ''what is rust'') [rust_book, cooking, rust_notes]
       = [(2, rust_book), (3, rust_notes)]
   \<and> score_docs (tokenize ''rust'') [\<lparr>doc_id = ''e'', title = None, url = None, content = Some ''...'', tags = []\<rparr>] = []"
proof -
  have a: "(\<Sum>t\<leftarrow>[''rust'', ''is'', ''rust'']. int (count_list (tokenize ''Rust is. Rust!'') t)) = 5"
    by code_simp
  have b: "map (\<lambda>d. ((\<Sum>t\<leftarrow>tokenize ''what is rust''. int (count_list (tokenize (get_content d)) t)), d))
         (filter (\<lambda>d. tokenize (get_content d) \<noteq> []
                    \<and> 0 < (\<Sum>t\<leftarrow>tokenize ''what is rust''. int (count_list (tokenize (get_content d)) t)))
            [rust_book, cooking, rust_notes]) = [(2, rust_book), (3, rust_notes)]"
    by code_simp
  have c: "map (\<lambda>d. ((\<Sum>t\<leftarrow>tokenize ''rust''. int (count_list (tokenize (get_content d)) t)), d))
         (filter (\<lambda>d. tokenize (get_content d) \<noteq> []
                    \<and> 0 < (\<Sum>t\<leftarrow>tokenize ''rust''. int (count_list (tokenize (get_content d)) t)))
            [\<lparr>doc_id = ''e'', title = None, url = None, content = Some ''...'', tags = []\<rparr>]) = []"
    by code_simp
  show ?thesis
    using score_is_sum_of_counts [of "[''rust'', ''is'', ''rust'']" "tokenize ''Rust is. Rust!''"]
      score_is_sum_of_counts [of "tokenize ''what is rust''" _ "[rust_book, cooking, rust_notes]"]
      score_is_sum_of_counts [of "tokenize ''rust''" _
        "[\<lparr>doc_id = ''e'', title = None, url = None, content = Some ''...'', tags = []\<rparr>]"]
    by (simp only: a b c simp_thms)
qed

text \<open>
  The bound of claim C2 fails for a negative \<open>top_k\<close>: the slice \<open>scored[:-1]\<close>
  drops the last entry only, so with two positively scored documents one source is
  returned, which is more than \<open>min(-1, 2)\<close>.
\<close>

theorem top_k_bound_counterexample:
  "map_sum id (int \<circ> length \<circ> sources)
     (fst (ask_question example_store \<lparr>question = ''what is rust'', top_k = - 1\<rparr>)) = Inr 1
   \<and> int (length (score_docs (tokenize ''what is rust'') [rust_book, cooking, rust_notes])) = 2
   \<and> fst (get_documents example_store ''resource'' MatchAll 100) = Inr [rust_book, cooking, rust_notes]
   \<and> \<not> (1 \<le> min (- 1 :: int) 2)"
  by code_simp

text \<open>
  Claim C2, amended. For a \<open>top_k\<close> that is not negative, a successful answer cites no
  more than \<open>min(top_k, n)\<close> sources, where \<open>n\<close> is the number of candidate documents with
  a positive score.
\<close>

theorem top_k_bound_nonnegative:
  assumes "0 \<le> top_k p"
    and "fst (get_documents st ''resource'' MatchAll 100) = Inr docs"
    and "fst (ask_question st p) = Inr r"
  shows "int (length (sources r))
           \<le> min (top_k p)
                (int (length (filter (\<lambda>d. 0 < doc_score (tokenize (strip (question p)))
                                               (tokenize (get_content d))) docs)))"
proof -
  let ?q = "tokenize (strip (question p))"
  from assms(2) have f: "failure st = None" and d: "docs = take 100 (collections st ''resource'')"
    by (simp_all add: get_documents_Inr)
  have ne: "strip (question p) \<noteq> []"
    using assms(3) ask_question_blank[of p st] by auto
  show ?thesis
  proof (cases "score_docs ?q docs = []")
    case True
    have "sources r = []"
    proof (cases "docs = []")
      case True
      then show ?thesis using ask_question_no_docs[OF ne f] assms(3) d by auto
    next
      case False
      then show ?thesis using ask_question_no_match[OF ne f] True assms(3) d by auto
    qed
    then show ?thesis using assms(1) by simp
  next
    case False
    then have "r = compose_answer ?q (select_top (score_docs ?q docs) (top_k p))"
      using ask_question_found[OF ne f] assms(3) d by auto
    then have "int (length (sources r))
        = min (top_k p) (int (length (score_docs ?q docs)))"
      using assms(1) by (simp add: sources_compose_answer length_select_top)
    then show ?thesis by (simp only: length_score_docs)
  qed
qed


theorem top_k_bound_nonnegative_witness:
  "(0::int) \<le> top_k \<lparr>question = ''what is rust'', top_k = 1\<rparr>
   \<and> fst (get_documents example_store ''resource'' MatchAll 100) = Inr [rust_book, cooking, rust_notes]
   \<and> map source_id (sources (projr (fst (ask_question example_store
          \<lparr>question = ''what is rust'', top_k = 1\<rparr>)))) = [''a2'']
   \<and> int (length (sources (projr (fst (ask_question example_store
          \<lparr>question = ''what is rust'', top_k = 1\<rparr>))))) \<le> min 1 2"
proof -
  let ?p = "\<lparr>question = ''what is rust'', top_k = 1\<rparr>"
  have k: "(0::int) \<le> top_k ?p" by simp
  have g: "fst (get_documents example_store ''resource'' MatchAll 100)
      = Inr [rust_book, cooking, rust_notes]"
    by code_simp
  have a: "fst (ask_question example_store ?p) = Inr (projr (fst (ask_question example_store ?p)))"
    by code_simp
  have n: "int (length (filter (\<lambda>d. 0 < doc_score (tokenize (strip (question ?p)))
                                               (tokenize (get_content d)))
              [rust_book, cooking, rust_notes])) = 2"
    by code_simp
  have s: "map source_id (sources (projr (fst (ask_question example_store ?p)))) = [''a2'']"
    by code_simp
  from top_k_bound_nonnegative [OF k g a] n k g s show ?thesis by simp
qed

text \<open>
  Claim C3. The ranked list is sorted by score, highest first, and is a permutation of
  the scored list; the documents of any one score keep the order they had in the scored
  list, which is the order of the candidate set as the store returned it.
\<close>

theorem ranking_sorted_and_stable:
  "sorted_wrt (\<lambda>a b. fst b \<le> fst a) (rank scored)
   \<and> mset (rank scored) = mset scored
   \<and> filter (\<lambda>x. fst x = k) (rank scored) = filter (\<lambda>x. fst x = k) scored
   \<and> map snd (filter (\<lambda>x. fst x = k) (rank (score_docs q_tokens docs)))
       = filter (\<lambda>d. 0 < k \<and> doc_score q_tokens (tokenize (get_content d)) = k) docs"
proof (intro conjI)
  show "sorted_wrt (\<lambda>a b. fst b \<le> fst a) (rank scored)"
    unfolding rank_def by (rule list_sort_reverse_sorted)
  show "mset (rank scored) = mset scored"
    unfolding rank_def by (rule list_sort_mset)
  show "filter (\<lambda>x. fst x = k) (rank scored) = filter (\<lambda>x. fst x = k) scored"
    unfolding rank_def by (rule list_sort_reverse_stable)
  have "map snd (filter (\<lambda>x. fst x = k) (rank (score_docs q_tokens docs)))
      = map snd (filter (\<lambda>x. fst x = k) (score_docs q_tokens docs))"
    unfolding rank_def by (simp only: list_sort_reverse_stable)
  also have "\<dots> = filter (\<lambda>d. doc_score q_tokens (tokenize (get_content d)) = k)
       (filter (\<lambda>d. tokenize (get_content d) \<noteq> []
                    \<and> 0 < doc_score q_tokens (tokenize (get_content d))) docs)"
    by (simp add: score_docs_map_filter filter_map comp_def)
  also have "\<dots> = filter (\<lambda>d. 0 < k \<and> doc_score q_tokens (tokenize (get_content d)) = k) docs"
    by (auto intro: filter_cong simp: doc_score_Nil)
  finally show "map snd (filter (\<lambda>x. fst x = k) (rank (score_docs q_tokens docs)))
       = filter (\<lambda>d. 0 < k \<and> doc_score q_tokens (tokenize (get_content d)) = k) docs" .
qed

theorem ranking_sorted_and_stable_witness:
  "rank [(2, rust_book), (3, rust_notes), (2, cooking)]
     = [(3, rust_notes), (2, rust_book), (2, cooking)]
   \<and> filter (\<lambda>x. fst x = 2) (rank [(2, rust_book), (3, rust_notes), (2, cooking)])
       = [(2, rust_book), (2, cooking)]"
proof -
  have e: "rank [(2, rust_book), (3, rust_notes), (2, cooking)]
     = [(3, rust_notes), (2, rust_book), (2, cooking)]"
    by code_simp
  have "filter (\<lambda>x. fst x = 2) (rank [(2, rust_book), (3, rust_notes), (2, cooking)])
      = filter (\<lambda>x. fst x = 2) [(2, rust_book), (3, rust_notes), (2, cooking)]"
    using ranking_sorted_and_stable [of "[(2, rust_book), (3, rust_notes), (2, cooking)]" 2]
    by blast
  then show ?thesis using e by simp
qed

text \<open>
  Claim C4. A snippet is never longer than 600 characters, whether it is the joined
  sentences or the head of the raw content.
\<close>

theorem snippet_at_most_600:
  "length (extract_snippets text q_terms 600) \<le> 600"
  by (rule length_extract_snippets)

theorem snippet_at_most_600_witness:
  "length (extract_snippets (replicate 700 (CHR ''a'')) [''a''] 600) \<le> 600
   \<and> extract_snippets (replicate 700 (CHR ''a'')) [''a''] 600 = replicate 600 (CHR ''a'')
   \<and> length (extract_snippets (replicate 700 (CHR ''a'')) [''b''] 600) \<le> 600
   \<and> extract_snippets (replicate 700 (CHR ''a'')) [''b''] 600 = replicate 600 (CHR ''a'')"
proof -
  have a: "extract_snippets (replicate 700 (CHR ''a'')) [''a''] 600 = replicate 600 (CHR ''a'')"
    by code_simp
  have b: "extract_snippets (replicate 700 (CHR ''a'')) [''b''] 600 = replicate 600 (CHR ''a'')"
    by code_simp
  show ?thesis
    using snippet_at_most_600 [of "replicate 700 (CHR ''a'')" "[''a'']"]
      snippet_at_most_600 [of "replicate 700 (CHR ''a'')" "[''b'']"] a b
    by blast
qed

text \<open>
  Claim C5. Snippet extraction agrees with the specification's description: the sentences
  whose lowercased form contains a question token as a substring are taken in order, with
  surrounding whitespace stripped, up to and including the one with which the running
  total of their lengths exceeds 600; they are joined by a space and cut at 600
  characters, and if no sentence matches the snippet is the first 600 characters of the
  content. The sentences are the pieces of the content between the separators, where a
  separator is the whole run of whitespace behind a terminator: every sentence but the
  last ends with a terminator, no sentence but the first starts with whitespace, no
  sentence contains a terminator followed by whitespace, and the sentences with the
  whitespace runs between them give the content back.
\<close>

theorem snippet_selection:
  "extract_snippets text q_terms 600 = snippet_spec text q_terms 600
   \<and> (matching q_terms s \<longleftrightarrow> (\<exists>t\<in>set q_terms. \<exists>before after. lower s = before @ t @ after))
   \<and> (\<forall>s\<in>set (butlast (re_split text)). s \<noteq> [] \<and> is_terminator (last s))
   \<and> (\<forall>s\<in>set (tl (re_split text)). s = [] \<or> \<not> is_space (hd s))
   \<and> (\<forall>s\<in>set (re_split text). \<not> has_boundary s)
   \<and> (\<exists>seps. length seps + 1 = length (re_split text)
         \<and> (\<forall>w\<in>set seps. w \<noteq> [] \<and> (\<forall>c\<in>set w. is_space c))
         \<and> interleave (re_split text) seps = text)"
proof (intro conjI)
  show "extract_snippets text q_terms 600 = snippet_spec text q_terms 600"
    by (rule extract_snippets_spec)
  show "matching q_terms s \<longleftrightarrow> (\<exists>t\<in>set q_terms. \<exists>before after. lower s = before @ t @ after)"
    by (simp add: matching_def sublist_def)
  show "\<forall>s\<in>set (butlast (re_split text)). s \<noteq> [] \<and> is_terminator (last s)"
    using re_split_butlast by blast
  show "\<forall>s\<in>set (tl (re_split text)). s = [] \<or> \<not> is_space (hd s)"
    using re_split_tl by blast
  show "\<forall>s\<in>set (re_split text). \<not> has_boundary s"
    using re_split_no_boundary by blast
  show "\<exists>seps. length seps + 1 = length (re_split text)
         \<and> (\<forall>w\<in>set seps. w \<noteq> [] \<and> (\<forall>c\<in>set w. is_space c))
         \<and> interleave (re_split text) seps = text"
    by (rule re_split_interleave)
qed

theorem snippet_selection_witness:
  "snippet_spec ''The category is big. Dogs bark!  Cats too.'' [''cat''] 600
     = ''The category is big. Cats too.''
   \<and> re_split ''The category is big. Dogs bark!  Cats too.''
       = [''The category is big.'', ''Dogs bark!'', ''Cats too.'']
   \<and> list_all (\<lambda>s. s \<noteq> [] \<and> is_terminator (last s)) [''The category is big.'', ''Dogs bark!'']
   \<and> list_all (\<lambda>s. \<not> has_boundary s) [''The category is big.'', ''Dogs bark!'', ''Cats too.'']
   \<and> snippet_spec ''Dogs bark. Birds sing.'' [''cat''] 600 = ''Dogs bark. Birds sing.''"
proof -
  have r: "re_split ''The category is big. Dogs bark!  Cats too.''
       = [''The category is big.'', ''Dogs bark!'', ''Cats too.'']"
    by code_simp
  have a: "extract_snippets ''The category is big. Dogs bark!  Cats too.'' [''cat''] 600
     = ''The category is big. Cats too.''"
    by code_simp
  have b: "extract_snippets ''Dogs bark. Birds sing.'' [''cat''] 600 = ''Dogs bark. Birds sing.''"
    by code_simp
  note h = snippet_selection [of "''The category is big. Dogs bark!  Cats too.''" "[''cat'']"]
  note h2 = snippet_selection [of "''Dogs bark. Birds sing.''" "[''cat'']"]
  have 1: "snippet_spec ''The category is big. Dogs bark!  Cats too.'' [''cat''] 600
     = ''The category is big. Cats too.''"
    using h [THEN conjunct1] a by simp
  have 2: "snippet_spec ''Dogs bark. Birds sing.'' [''cat''] 600 = ''Dogs bark. Birds sing.''"
    using h2 [THEN conjunct1] b by simp
  note n3 = h [THEN conjunct2, THEN conjunct2, THEN conjunct1]
  note n5 = h [THEN conjunct2, THEN conjunct2, THEN conjunct2, THEN conjunct2, THEN conjunct1]
  from n3 have p3: "list_all (\<lambda>s. s \<noteq> [] \<and> is_terminator (last s))
      [''The category is big.'', ''Dogs bark!'']"
    unfolding r by (simp add: list_all_iff)
  from n5 have p5: "list_all (\<lambda>s. \<not> has_boundary s)
      [''The category is big.'', ''Dogs bark!'', ''Cats too.'']"
    unfolding r by (simp add: list_all_iff)
  show ?thesis using 1 2 r p3 p5 by blast
qed

text \<open>
  Claim C6. The tokenizer returns the maximal runs of ASCII letters and digits of its
  argument, lowercased: it agrees with the specification's description, which cuts the
  text at every other character and keeps the non-empty pieces. It does not depend on
  the case of the ASCII letters of the text: lowering them, raising them, or replacing
  the text by any text that differs from it in the case of ASCII letters only, leaves
  the tokens as they are. Tokenizing the space-join of its own output gives that output
  again, and \<open>"Cat DOG"\<close> gives \<open>["cat", "dog"]\<close>.
\<close>

theorem tokenize_runs_case_idempotent:
  "tokenize t = tokenize_spec t
   \<and> tokenize (map ascii_lower_char t) = tokenize t
   \<and> tokenize (map ascii_upper_char t) = tokenize t
   \<and> (map ascii_lower_char s = map ascii_lower_char t \<longrightarrow> tokenize s = tokenize t)
   \<and> tokenize (join '' '' (tokenize t)) = tokenize t
   \<and> tokenize ''Cat DOG'' = [''cat'', ''dog'']"
proof (intro conjI impI)
  have low: "tokenize (map ascii_lower_char u) = tokenize u" for u
    by (rule tokenize_map_case) (rule is_alnum_ascii_lower, rule lower_ascii_lower)
  show "tokenize t = tokenize_spec t"
    by (simp add: tokenize_def tokenize_spec_def findall_pieces)
  show "tokenize (map ascii_lower_char t) = tokenize t"
    by (rule low)
  show "tokenize (map ascii_upper_char t) = tokenize t"
    by (rule tokenize_map_case) (rule is_alnum_ascii_upper, rule lower_ascii_upper)
  show "tokenize s = tokenize t" if "map ascii_lower_char s = map ascii_lower_char t"
    using low[of s] low[of t] that by simp
  show "tokenize (join '' '' (tokenize t)) = tokenize t"
    by (rule tokenize_idem)
  show "tokenize ''Cat DOG'' = [''cat'', ''dog'']"
    by code_simp
qed

theorem tokenize_runs_case_idempotent_witness:
  "tokenize_spec ''Ab, cD-9'' = [''ab'', ''cd'', ''9'']
   \<and> map ascii_lower_char ''Ab, cD-9'' = ''ab, cd-9''
   \<and> tokenize ''ab, cd-9'' = [''ab'', ''cd'', ''9'']
   \<and> map ascii_upper_char ''Ab, cD-9'' = ''AB, CD-9''
   \<and> tokenize ''AB, CD-9'' = [''ab'', ''cd'', ''9'']
   \<and> map ascii_lower_char ''aB, Cd-9'' = map ascii_lower_char ''Ab, cD-9''
   \<and> tokenize ''aB, Cd-9'' = [''ab'', ''cd'', ''9'']
   \<and> tokenize (join '' '' [''ab'', ''cd'', ''9'']) = [''ab'', ''cd'', ''9'']"
proof -
  have v: "tokenize ''Ab, cD-9'' = [''ab'', ''cd'', ''9'']"
    by code_simp
  have l: "map ascii_lower_char ''Ab, cD-9'' = ''ab, cd-9''"
    by code_simp
  have u: "map ascii_upper_char ''Ab, cD-9'' = ''AB, CD-9''"
    by code_simp
  have e: "map ascii_lower_char ''aB, Cd-9'' = map ascii_lower_char ''Ab, cD-9''"
    by code_simp
  note h = tokenize_runs_case_idempotent [of "''Ab, cD-9''" "''aB, Cd-9''"]
  have "tokenize_spec ''Ab, cD-9'' = [''ab'', ''cd'', ''9'']"
    using h [THEN conjunct1] v by simp
  moreover have "tokenize ''ab, cd-9'' = [''ab'', ''cd'', ''9'']"
    using h [THEN conjunct2, THEN conjunct1] l v by simp
  moreover have "tokenize ''AB, CD-9'' = [''ab'', ''cd'', ''9'']"
    using h [THEN conjunct2, THEN conjunct2, THEN conjunct1] u v by simp
  moreover have "tokenize ''aB, Cd-9'' = [''ab'', ''cd'', ''9'']"
    using h [THEN conjunct2, THEN conjunct2, THEN conjunct2, THEN conjunct1] e v by simp
  moreover have "tokenize (join '' '' [''ab'', ''cd'', ''9'']) = [''ab'', ''cd'', ''9'']"
    using h [THEN conjunct2, THEN conjunct2, THEN conjunct2, THEN conjunct2, THEN conjunct1] v
    by simp
  ultimately show ?thesis using l u e by blast
qed

text \<open>
  Claim C7. Scoring is monotone in term frequency: if no question token occurs less often
  in the second document than in the first, the second document's score is at least the
  first one's. In particular, one more occurrence of any token anywhere in a document,
  all else equal, never lowers its score.
\<close>

theorem score_monotone_in_term_frequency:
  assumes "\<forall>t\<in>set (tokenize q). count_list (tokenize (get_content d1)) t
                                  \<le> count_list (tokenize (get_content d2)) t"
  shows "doc_score (tokenize q) (tokenize (get_content d1))
           \<le> doc_score (tokenize q) (tokenize (get_content d2))
       \<and> doc_score (tokenize q) (before @ after)
           \<le> doc_score (tokenize q) (before @ w # after)"
proof
  show "doc_score (tokenize q) (tokenize (get_content d1))
           \<le> doc_score (tokenize q) (tokenize (get_content d2))"
    using assms by (rule doc_score_mono)
  show "doc_score (tokenize q) (before @ after) \<le> doc_score (tokenize q) (before @ w # after)"
    by (rule doc_score_mono) simp
qed

theorem score_monotone_in_term_frequency_witness:
  "tokenize ''rust'' = [''rust'']
   \<and> count_list (tokenize (get_content rust_book)) ''rust'' = 1
   \<and> count_list (tokenize (get_content rust_notes)) ''rust'' = 3
   \<and> doc_score (tokenize ''rust'') (tokenize (get_content rust_book))
           \<le> doc_score (tokenize ''rust'') (tokenize (get_content rust_notes))
   \<and> doc_score (tokenize ''rust'') ([''rust'', ''is''] @ [''fast''])
           \<le> doc_score (tokenize ''rust'') ([''rust'', ''is''] @ ''rust'' # [''fast''])"
proof -
  have q: "tokenize ''rust'' = [''rust'']"
    by code_simp
  have c1: "count_list (tokenize (get_content rust_book)) ''rust'' = 1"
    by code_simp
  have c2: "count_list (tokenize (get_content rust_notes)) ''rust'' = 3"
    by code_simp
  have h: "\<forall>t\<in>set (tokenize ''rust''). count_list (tokenize (get_content rust_book)) t
                                  \<le> count_list (tokenize (get_content rust_notes)) t"
    unfolding q using c1 c2 by simp
  show ?thesis
    using q c1 c2
      score_monotone_in_term_frequency [OF h, of "[''rust'', ''is'']" "[''fast'']" "''rust''"]
    by blast
qed

text \<open>
  Claim C8. For a question that passes validation, an empty candidate set gives the
  fixed "no resources yet" answer and a candidate set in which no document scores above
  zero gives the fixed "couldn't find information" answer; both are successful responses
  with an empty source list.
\<close>

theorem empty_results_not_errors:
  assumes "3 \<le> length (question p)" and "strip (question p) \<noteq> []"
    and "fst (get_documents st ''resource'' MatchAll 100) = Inr docs"
  shows "(docs = [] \<longrightarrow>
            fst (api_ask st p) =
              Inr \<lparr>answer = ''I don't have any resources yet. Please add a website or docs first.'',
                    sources = []\<rparr>)
       \<and> (docs \<noteq> [] \<and> (\<forall>d\<in>set docs. \<not> 0 < doc_score (tokenize (strip (question p)))
                                                  (tokenize (get_content d))) \<longrightarrow>
            fst (api_ask st p) =
              Inr \<lparr>answer = ''I couldn't find information about that in the provided resources.'',
                    sources = []\<rparr>)"
proof -
  from assms(3) have f: "failure st = None" and d: "docs = take 100 (collections st ''resource'')"
    by (simp_all add: get_documents_Inr)
  have api: "api_ask st p = ask_question st p"
    using assms(1) by (simp add: api_ask_def)
  show ?thesis
    using ask_question_no_docs[OF assms(2) f] ask_question_no_match[OF assms(2) f]
    by (auto simp: api d score_docs_Nil_iff)
qed

theorem empty_results_not_errors_witness:
  "3 \<le> length ''what is rust'' \<and> strip ''what is rust'' \<noteq> []
   \<and> fst (get_documents empty_store ''resource'' MatchAll 100) = Inr []
   \<and> fst (api_ask empty_store \<lparr>question = ''what is rust'', top_k = 3\<rparr>) =
         Inr \<lparr>answer = ''I don't have any resources yet. Please add a website or docs first.'',
               sources = []\<rparr>
   \<and> fst (get_documents example_store ''resource'' MatchAll 100) = Inr [rust_book, cooking, rust_notes]
   \<and> list_all (\<lambda>d. \<not> 0 < doc_score (tokenize (strip ''quantum physics''))
                                (tokenize (get_content d))) [rust_book, cooking, rust_notes]
   \<and> fst (api_ask example_store \<lparr>question = ''quantum physics'', top_k = 3\<rparr>) =
         Inr \<lparr>answer = ''I couldn't find information about that in the provided resources.'',
               sources = []\<rparr>"
proof -
  let ?p = "\<lparr>question = ''what is rust'', top_k = 3\<rparr>"
  let ?p2 = "\<lparr>question = ''quantum physics'', top_k = 3\<rparr>"
  have l: "3 \<le> length (question ?p)" by simp
  have s: "strip (question ?p) \<noteq> []" by code_simp
  have g: "fst (get_documents empty_store ''resource'' MatchAll 100) = Inr []" by code_simp
  have l2: "3 \<le> length (question ?p2)" by simp
  have s2: "strip (question ?p2) \<noteq> []" by code_simp
  have g2: "fst (get_documents example_store ''resource'' MatchAll 100)
      = Inr [rust_book, cooking, rust_notes]" by code_simp
  have z: "\<forall>d\<in>set [rust_book, cooking, rust_notes].
          \<not> 0 < doc_score (tokenize (strip (question ?p2))) (tokenize (get_content d))"
    by code_simp
  from empty_results_not_errors [OF l s g] empty_results_not_errors [OF l2 s2 g2] l s g g2 z
  show ?thesis by (simp add: list_all_iff)
qed

text \<open>
  Claim C9. A question that is empty or consists of whitespace only is rejected with a
  client-error status, by the validation of the request body or by the handler, and the
  store is left as it was: no query is made.
\<close>

theorem blank_question_rejected:
  assumes "\<forall>c\<in>set (question p). is_space c"
  shows "(\<exists>e. api_ask st p = (Inl e, st) \<and> 400 \<le> status_code e \<and> status_code e < 500)
       \<and> ask_question st p = (Inl (HTTPException 400 ''Empty question''), st)
       \<and> queries (snd (api_ask st p)) = queries st"
proof -
  from assms have b: "strip (question p) = []" by (simp add: strip_Nil_iff)
  have a: "ask_question st p = (Inl (HTTPException 400 ''Empty question''), st)"
    by (rule ask_question_blank[OF b])
  show ?thesis
  proof (cases "length (question p) < 3")
    case True
    then have "api_ask st p = (Inl RequestValidationError, st)" by (simp add: api_ask_def)
    then show ?thesis using a by simp
  next
    case False
    then have "api_ask st p = ask_question st p" by (simp add: api_ask_def)
    then show ?thesis using a by simp
  qed
qed

theorem blank_question_rejected_witness:
  "list_all is_space [CHR '' '', CHR 0x09, CHR '' '', CHR 0x0A]
   \<and> api_ask example_store \<lparr>question = [CHR '' '', CHR 0x09, CHR '' '', CHR 0x0A], top_k = 3\<rparr>
       = (Inl (HTTPException 400 ''Empty question''), example_store)
   \<and> api_ask example_store \<lparr>question = [], top_k = 3\<rparr> = (Inl RequestValidationError, example_store)
   \<and> queries (snd (api_ask example_store \<lparr>question = [], top_k = 3\<rparr>)) = []"
proof -
  let ?p = "\<lparr>question = [CHR '' '', CHR 0x09, CHR '' '', CHR 0x0A], top_k = 3\<rparr>"
  let ?e = "\<lparr>question = [], top_k = 3\<rparr>"
  have h: "\<forall>c\<in>set (question ?p). is_space c" by code_simp
  have h2: "\<forall>c\<in>set (question ?e). is_space c" by simp
  have a: "api_ask example_store ?p = ask_question example_store ?p"
    by (simp add: api_ask_def)
  have e: "api_ask example_store ?e = (Inl RequestValidationError, example_store)"
    by (simp add: api_ask_def)
  have q: "queries example_store = []" by (simp add: example_store_def)
  from blank_question_rejected [OF h, of example_store]
    blank_question_rejected [OF h2, of example_store] h a e q
  show ?thesis by (simp add: list_all_iff)
qed

text \<open>
  Claim C10. The handler queries the collection once, with limit 100, and its response is
  the response it would give if only the first 100 stored documents existed: a document
  behind them is neither scored nor ranked nor cited, whatever \<open>top_k\<close> is.
\<close>

theorem ask_reads_first_100_only:
  "fst (ask_question st p)
     = fst (ask_question (st\<lparr>collections := (collections st)
              (''resource'' := take 100 (collections st ''resource''))\<rparr>) p)
   \<and> (strip (question p) \<noteq> [] \<longrightarrow>
        queries (snd (ask_question st p)) = queries st @ [(''resource'', MatchAll, 100)])
   \<and> (fst (get_documents st ''resource'' MatchAll 100) = Inr docs \<longrightarrow>
        docs = take 100 (collections st ''resource'') \<and> length docs \<le> 100)
   \<and> (fst (ask_question st p) = Inr r \<longrightarrow>
        set (sources r) \<subseteq> normalize_source ` set (take 100 (collections st ''resource'')))"
proof (intro conjI impI)
  show "fst (ask_question st p)
     = fst (ask_question (st\<lparr>collections := (collections st)
              (''resource'' := take 100 (collections st ''resource''))\<rparr>) p)"
    by (simp add: ask_question_def get_documents_all Let_def split: option.splits)
  show "queries (snd (ask_question st p)) = queries st @ [(''resource'', MatchAll, 100)]"
    if "strip (question p) \<noteq> []"
    using that by (simp add: ask_question_def get_documents_all Let_def split: option.splits)
  show "docs = take 100 (collections st ''resource'')"
    if "fst (get_documents st ''resource'' MatchAll 100) = Inr docs"
    using that by (simp add: get_documents_Inr)
  show "length docs \<le> 100"
    if "fst (get_documents st ''resource'' MatchAll 100) = Inr docs"
    using that by (simp add: get_documents_Inr)
  show "set (sources r) \<subseteq> normalize_source ` set (take 100 (collections st ''resource''))"
    if r: "fst (ask_question st p) = Inr r"
  proof -
    let ?q = "tokenize (strip (question p))"
    let ?docs = "take 100 (collections st ''resource'')"
    have ne: "strip (question p) \<noteq> []"
      using r ask_question_blank[of p st] by auto
    have f: "failure st = None"
    proof (cases "failure st")
      case None
      then show ?thesis .
    next
      case (Some e)
      then show ?thesis using ask_question_failure[OF ne Some] r by simp
    qed
    show ?thesis
    proof (cases "score_docs ?q ?docs = []")
      case True
      have "sources r = []"
      proof (cases "?docs = []")
        case True
        then show ?thesis using ask_question_no_docs[OF ne f] r by auto
      next
        case False
        then show ?thesis using ask_question_no_match[OF ne f] True r by auto
      qed
      then show ?thesis by simp
    next
      case False
      then have "r = compose_answer ?q (select_top (score_docs ?q ?docs) (top_k p))"
        using ask_question_found[OF ne f] r by auto
      then have "set (sources r)
          = normalize_source ` set (select_top (score_docs ?q ?docs) (top_k p))"
        by (simp add: sources_compose_answer)
      also have "\<dots> \<subseteq> normalize_source ` set ?docs"
        using set_select_top[of "score_docs ?q ?docs" "top_k p"] snd_score_docs[of ?q ?docs]
        by blast
      finally show ?thesis .
    qed
  qed
qed

theorem ask_reads_first_100_only_witness:
  "strip ''rust'' \<noteq> []
   \<and> queries (snd (ask_question big_store \<lparr>question = ''rust'', top_k = 200\<rparr>))
       = [(''resource'', MatchAll, 100)]
   \<and> length (collections big_store ''resource'') = 101
   \<and> fst (get_documents big_store ''resource'' MatchAll 100) = Inr (replicate 100 cooking)
   \<and> fst (ask_question big_store \<lparr>question = ''rust'', top_k = 200\<rparr>) =
         Inr \<lparr>answer = ''I couldn't find information about that in the provided resources.'',
               sources = []\<rparr>"
proof -
  let ?p = "\<lparr>question = ''rust'', top_k = 200\<rparr>"
  have s: "strip (question ?p) \<noteq> []" by code_simp
  have q: "queries big_store = []" by (simp add: big_store_def)
  have l: "length (collections big_store ''resource'') = 101" by (simp add: big_store_def)
  have g: "fst (get_documents big_store ''resource'' MatchAll 100) = Inr (replicate 100 cooking)"
    by (simp add: get_documents_all big_store_def)
  have a: "fst (ask_question big_store ?p) =
         Inr \<lparr>answer = ''I couldn't find information about that in the provided resources.'',
               sources = []\<rparr>"
    by code_simp
  from ask_reads_first_100_only [of big_store ?p] s q l g a show ?thesis by simp
qed

end
